theory Spec2Isabelle
  imports Main "HOL-Library.Word"
begin

unbundle bit_operations_syntax

section \<open>The DHT11 driver (dht11.c) as a shallow embedding\<close>

text \<open>
  The driver has three parts: the edge interrupt handler \<open>doirq\<close>, the polling thread
  \<open>dothread\<close>, and the character-device read \<open>doread\<close>. The C globals and the
  function-local statics of \<open>doirq\<close> form one record. C \<open>int\<close> is a 32-bit word read
  with \<open>sint\<close>; \<open>u8\<close>, \<open>u32\<close> and \<open>u64\<close> are words of that width, so every
  subtraction of timestamps wraps as it does in C.
\<close>

type_synonym u8 = "8 word"
type_synonym u32 = "32 word"
type_synonym u64 = "64 word"
type_synonym c_int = "32 word"

text \<open>
  \<open>data\<close>, \<open>state\<close>: the volatile globals shared by the handler and the thread.
  \<open>edge\<close>, \<open>bit_n\<close> (the static \<open>bit\<close> of the source), \<open>nominal\<close>: the statics
  of \<open>doirq\<close>. \<open>valid\<close>, \<open>temperature\<close>, \<open>humidity\<close>: the results.
  \<open>data\<close> is an array of five bytes, a list of length 5 here.
\<close>

record driver =
  data :: "u8 list"
  state :: c_int
  edge :: u64
  bit_n :: u32
  nominal :: u64
  valid :: c_int
  temperature :: c_int
  humidity :: c_int

text \<open>All globals and statics of the module start at zero.\<close>

definition init_driver :: driver where
  "init_driver = \<lparr>data = [0, 0, 0, 0, 0], state = 0, edge = 0, bit_n = 0, nominal = 0,
     valid = 0, temperature = 0, humidity = 0\<rparr>"

text \<open>Integer promotion of a \<open>u8\<close> operand to \<open>int\<close>.\<close>

definition promote :: "u8 \<Rightarrow> c_int" where
  "promote b = ucast b"

subsection \<open>The interrupt handler\<close>

text \<open>
  \<open>doirq now gpio_value s\<close>: one edge interrupt. \<open>now\<close> is what \<open>ktime_get_ns()\<close>
  returns and \<open>gpio_value\<close> what \<open>gpio_get_value(gpio)\<close> returns in this call.
  The store \<open>data[bit/8] = (data[bit/8] << 1) | (...)\<close> computes in \<open>int\<close> and
  truncates to a byte. The source indexes \<open>data\<close> with \<open>bit/8\<close> unchecked; the index is
  below 5 whenever the handler is in state 3 (\<open>doirq_keeps_index\<close> below), and outside
  that range, where C has no defined behaviour, the list update leaves the list as it is.
\<close>

definition doirq :: "u64 \<Rightarrow> bool \<Rightarrow> driver \<Rightarrow> driver" where
  "doirq now gpio_value s =
    (if state s = 0 then s
     else if state s = 1 then (if gpio_value then s\<lparr>state := 2\<rparr> else s)
     else if state s = 2 then s\<lparr>edge := now, bit_n := 0, state := 3\<rparr>
     else if state s = 3 then
       (if gpio_value then
          s\<lparr>nominal := (if bit_n s = 0 then now - edge s else nominal s), edge := now\<rparr>
        else
          (let i = unat (bit_n s div 8);
               v = word_of_int (push_bit 1 (uint (data s ! i))
                     OR (if nominal s < now - edge s then 1 else 0));
               bit' = bit_n s + 1
           in s\<lparr>data := (data s)[i := v], bit_n := bit',
                state := (if 40 \<le> bit' then 0 else 3)\<rparr>))
     else s)"

text \<open>The interrupts delivered during a stretch of time, oldest first.\<close>

fun run :: "(u64 \<times> bool) list \<Rightarrow> driver \<Rightarrow> driver" where
  "run [] s = s"
| "run (e # es) s = run es (doirq (fst e) (snd e) s)"

subsection \<open>The polling thread\<close>

text \<open>The two writes of the thread to \<open>state\<close>: \<open>state = 0\<close> and \<open>state = 1\<close>.\<close>

definition disarm :: "driver \<Rightarrow> driver" where
  "disarm s = s\<lparr>state := 0\<rparr>"

definition arm :: "driver \<Rightarrow> driver" where
  "arm s = s\<lparr>state := 1\<rparr>"

text \<open>
  Lines 93 to 102: the thread disarms the handler, triggers the sensor, arms the handler
  and sleeps; \<open>evs\<close> are the interrupts delivered while it sleeps.
\<close>

definition acquire :: "(u64 \<times> bool) list \<Rightarrow> driver \<Rightarrow> driver" where
  "acquire evs s = run evs (arm (disarm s))"

text \<open>
  The condition of lines 106 to 109 on the terminal state and the five bytes. The bytes
  are promoted to \<open>int\<close>, so the comparisons are signed and the sum is masked explicitly.
\<close>

definition accepted :: "c_int \<Rightarrow> u8 list \<Rightarrow> bool" where
  "accepted final d \<longleftrightarrow>
     final = 0 \<and>
     promote (d ! 1) \<le>s 9 \<and>
     promote (d ! 3) \<le>s 9 \<and>
     (promote (d ! 0) + promote (d ! 1) + promote (d ! 2) + promote (d ! 3)) AND 255
        = promote (d ! 4)"

text \<open>
  One poll of \<open>dothread\<close>, lines 93 to 121. The diagnostic line of the failure branch
  goes to the kernel log and changes no variable. The enclosing loop sleeps 100 ms per
  round and reaches this body in the first round and then in every 20th; the mutex only
  orders the accesses of the thread and of \<open>doread\<close>, which are sequential here.
\<close>

definition dothread_cycle :: "(u64 \<times> bool) list \<Rightarrow> driver \<Rightarrow> driver" where
  "dothread_cycle evs s =
    (let s3 = acquire evs s;
         final = state s3;
         s4 = disarm s3
     in if accepted final (data s4) then
          s4\<lparr>valid := 5,
             humidity := promote (data s4 ! 0) * 10 + promote (data s4 ! 1),
             temperature := promote (data s4 ! 2) * 10 + promote (data s4 ! 3)\<rparr>
        else
          s4\<lparr>valid := (if valid s4 \<noteq> 0 then valid s4 - 1 else valid s4)\<rparr>)"

text \<open>Whether the poll with interrupts \<open>evs\<close> takes the success branch.\<close>

definition cycle_ok :: "(u64 \<times> bool) list \<Rightarrow> driver \<Rightarrow> bool" where
  "cycle_ok evs s = accepted (state (acquire evs s)) (data (acquire evs s))"

text \<open>Consecutive polls, each with the interrupts of its own window.\<close>

fun run_cycles :: "(u64 \<times> bool) list list \<Rightarrow> driver \<Rightarrow> driver" where
  "run_cycles [] s = s"
| "run_cycles (evs # rest) s = run_cycles rest (dothread_cycle evs s)"

fun all_failed :: "(u64 \<times> bool) list list \<Rightarrow> driver \<Rightarrow> bool" where
  "all_failed [] s = True"
| "all_failed (evs # rest) s = (\<not> cycle_ok evs s \<and> all_failed rest (dothread_cycle evs s))"

subsection \<open>The sensor, as the header comment of the source describes it\<close>

text \<open>
  A data bit reaches the handler as a rising edge followed by a falling edge. \<open>pulses\<close>
  turns the two timestamps of each bit into the two interrupts.
\<close>

fun pulses :: "(u64 \<times> u64) list \<Rightarrow> (u64 \<times> bool) list" where
  "pulses [] = []"
| "pulses (p # ps) = (fst p, True) # (snd p, False) # pulses ps"

text \<open>
  The documented response (lines 23 to 29 of the source), in nanoseconds: each bit is 50 us
  low, then 28 us high for a 0 or 70 us high for a 1. \<open>bit_pulses t bs\<close> are the rising
  and falling timestamps of the bits \<open>bs\<close> when the line went low at \<open>t\<close>.
  \<open>dht11_response t bs\<close> starts with the rising edge that ends the initial 80 us low
  (the thread arms the handler during that low) and the falling edge 80 us later.
\<close>

fun bit_pulses :: "u64 \<Rightarrow> bool list \<Rightarrow> (u64 \<times> u64) list" where
  "bit_pulses t [] = []"
| "bit_pulses t (b # bs) =
     (t + 50000, t + 50000 + (if b then 70000 else 28000))
       # bit_pulses (t + 50000 + (if b then 70000 else 28000)) bs"

definition dht11_response :: "u64 \<Rightarrow> bool list \<Rightarrow> (u64 \<times> bool) list" where
  "dht11_response t bs = (t, True) # (t + 80000, False) # pulses (bit_pulses (t + 80000) bs)"

text \<open>
  The 40 bits of a frame in the order of transmission: bit \<open>i\<close> of the stream is bit
  \<open>7 - i mod 8\<close> of byte \<open>i div 8\<close>, most significant bit first.
\<close>

definition frame_bits :: "u8 list \<Rightarrow> bool list" where
  "frame_bits d = map (\<lambda>i. bit (d ! (i div 8)) (7 - i mod 8)) [0..<40]"

text \<open>The frame of the first end-to-end scenario of the specification.\<close>

definition sample_frame :: "u8 list" where
  "sample_frame = [0x41, 0x02, 0x17, 0x03, 0x5D]"

definition sample_edges :: "(u64 \<times> bool) list" where
  "sample_edges = dht11_response 0 (frame_bits sample_frame)"

subsection \<open>Auxiliary functions for the decoder proofs\<close>

text \<open>
  The byte store of the falling-edge branch on its own, and the effect of a list of bits
  on the five bytes, starting at bit position \<open>n\<close>. \<open>widths nom ps\<close> classifies each
  pulse as the handler does: longer than \<open>nom\<close> or not.
\<close>

definition shl_or :: "u8 \<Rightarrow> bool \<Rightarrow> u8" where
  "shl_or w b = word_of_int (push_bit 1 (uint w) OR (if b then 1 else 0))"

definition shift1 :: "nat \<Rightarrow> bool \<Rightarrow> u8 list \<Rightarrow> u8 list" where
  "shift1 n b d = d[n div 8 := shl_or (d ! (n div 8)) b]"

fun shift_in :: "nat \<Rightarrow> bool list \<Rightarrow> u8 list \<Rightarrow> u8 list" where
  "shift_in n [] d = d"
| "shift_in n (b # bs) d = shift_in (Suc n) bs (shift1 n b d)"

definition widths :: "u64 \<Rightarrow> (u64 \<times> u64) list \<Rightarrow> bool list" where
  "widths nom ps = map (\<lambda>p. nom < snd p - fst p) ps"

subsection \<open>The character device\<close>

text \<open>
  \<open>filp\<close> holds what \<open>doread\<close> uses of \<open>struct file\<close> and its arguments: the buffer
  \<open>private_data\<close> of \<open>MAXS\<close> bytes and the file position \<open>*ofs\<close>. The kernel passes
  only non-negative positions, so \<open>ofs\<close> is a natural number; the byte counts of
  \<open>doread\<close> stay below \<open>MAXS\<close>, far from the bounds of \<open>ssize_t\<close>.
\<close>

datatype errno = ENOMEM | EINVAL

record filp =
  private_data :: "char list"
  ofs :: nat

definition MAXS :: nat where
  "MAXS = 32"

definition NUL :: char where
  "NUL = CHR 0x00"

definition strlen :: "char list \<Rightarrow> nat" where
  "strlen buf = length (takeWhile (\<lambda>c. c \<noteq> NUL) buf)"

text \<open>
  \<open>doopen mem\<close>: \<open>mem\<close> is what \<open>kmalloc\<close> returns, \<open>None\<close> for a failed allocation,
  otherwise the bytes found in the new buffer.
\<close>

definition doopen :: "char list option \<Rightarrow> errno + filp" where
  "doopen mem =
     (case mem of
        None \<Rightarrow> Inl ENOMEM
      | Some buf \<Rightarrow> Inr \<lparr>private_data = buf[0 := NUL], ofs = 0\<rparr>)"

text \<open>The conversion \<open>%d\<close>.\<close>

definition digit :: "nat \<Rightarrow> char" where
  "digit n = ''0123456789'' ! n"

fun dec_nat :: "nat \<Rightarrow> string" where
  "dec_nat n = (if n < 10 then [digit n] else dec_nat (n div 10) @ [digit (n mod 10)])"

declare dec_nat.simps [simp del]

definition dec_int :: "int \<Rightarrow> string" where
  "dec_int i = (if i < 0 then CHR ''-'' # dec_nat (nat (- i)) else dec_nat (nat i))"

text \<open>The text that the format \<open>"%d %d\n"\<close> produces.\<close>

definition format_reading :: "c_int \<Rightarrow> c_int \<Rightarrow> string" where
  "format_reading h t = dec_int (sint h) @ '' '' @ dec_int (sint t) @ [CHR 0x0A]"

text \<open>
  \<open>sprintf\<close> writes the text and a terminating NUL at the start of the buffer and returns
  the length of the text.
\<close>

definition sprintf :: "char list \<Rightarrow> string \<Rightarrow> char list \<times> nat" where
  "sprintf buf str = (str @ NUL # drop (Suc (length str)) buf, length str)"

text \<open>
  \<open>copy_to_user writable src n\<close>: the user buffer takes \<open>writable\<close> bytes before it
  faults; the result is the bytes that arrived and the number of bytes not copied.
\<close>

definition copy_to_user :: "nat \<Rightarrow> char list \<Rightarrow> nat \<Rightarrow> char list \<times> nat" where
  "copy_to_user writable src n = (take (min n writable) src, n - min n writable)"

text \<open>Lines 155 to 158, the common end of both branches of \<open>doread\<close>.\<close>

definition deliver :: "nat \<Rightarrow> nat \<Rightarrow> nat \<Rightarrow> filp \<Rightarrow> errno + (nat \<times> char list \<times> filp)" where
  "deliver writable len n f =
     (let n1 = (if n > len then len else n);
          (bytes, uncopied) = copy_to_user writable (drop (ofs f) (private_data f)) n1;
          n2 = n1 - uncopied
      in Inr (n2, bytes, f\<lparr>ofs := ofs f + n2\<rparr>))"

text \<open>
  \<open>doread writable len f s\<close>: a read of \<open>len\<close> bytes. The result is the error, or the
  return value, the bytes that reached the user buffer and the updated file.
\<close>

definition doread :: "nat \<Rightarrow> nat \<Rightarrow> filp \<Rightarrow> driver \<Rightarrow> errno + (nat \<times> char list \<times> filp)" where
  "doread writable len f s =
     (if ofs f \<noteq> 0 then
        (let n = int (strlen (private_data f)) - int (ofs f)
         in if n \<le> 0 then Inr (0, [], f) else deliver writable len (nat n) f)
      else if valid s = 0 then Inl EINVAL
      else
        (let (buf, r) = sprintf (private_data f) (format_reading (humidity s) (temperature s));
             n = r + 1
         in deliver writable len n (f\<lparr>private_data := buf\<rparr>)))"

text \<open>A file that was just opened on zeroed memory.\<close>

definition opened :: filp where
  "opened = \<lparr>private_data = replicate 32 NUL, ofs = 0\<rparr>"

subsection \<open>States and files used in the examples\<close>

text \<open>
  \<open>published\<close>: the driver after one poll that received the sample frame.
  \<open>stale\<close>: the driver after five further polls that timed out.
  \<open>partly_read\<close>: the file after a read of three bytes at position 0 from \<open>published\<close>.
\<close>

definition published :: driver where
  "published = dothread_cycle sample_edges init_driver"

definition stale :: driver where
  "stale = run_cycles (replicate 5 []) published"

definition partly_read :: filp where
  "partly_read = \<lparr>private_data = ''652 233'' @ [CHR 0x0A, NUL] @ replicate 23 NUL, ofs = 3\<rparr>"

section \<open>Properties\<close>

subsection \<open>The disarmed handler\<close>

lemma doirq_idle: "state s = 0 \<Longrightarrow> doirq now v s = s"
  by (simp add: doirq_def)

lemma run_idle: "state s = 0 \<Longrightarrow> run evs s = s"
  by (induction evs) (simp_all add: doirq_idle)

text \<open>
  Claim C8. Disarming twice is disarming once, and a disarmed handler ignores every
  sequence of edges: neither the five bytes nor any other variable changes.
\<close>

theorem disarm_idempotent_and_idle_ignores_edges:
  "disarm (disarm s) = disarm s \<and> run evs (disarm s) = disarm s \<and>
   (state s = 0 \<longrightarrow> run evs s = s \<and> data (run evs s) = data s)"
  by (simp add: disarm_def run_idle)

theorem disarm_idempotent_and_idle_ignores_edges_witness:
  "state init_driver = 0 \<and>
   run [(1000, True), (2000, False)] init_driver = init_driver \<and>
   data (run [(1000, True), (2000, False)] init_driver) = data init_driver"
  using disarm_idempotent_and_idle_ignores_edges
    [of init_driver "[(1000, True), (2000, False)]"]
  by (simp add: init_driver_def)


subsection \<open>Integer promotion\<close>

lemma uint_promote: "uint (promote b) = uint b"
  by (simp add: promote_def unsigned_ucast_eq take_bit_int_eq_self_iff 
      order_less_le_trans [OF uint_lt2p [of b]])

lemma uint_promote_bound: "uint (promote b) < 256"
  using uint_lt2p [of b] by (simp add: uint_promote)

lemma sint_promote: "sint (promote b) = uint b"
proof -
  have "0 \<le> uint b" "uint b < 256"
    using uint_lt2p [of b] by simp_all
  then have "- 2147483648 \<le> uint b" "uint b < 2147483648" by linarith+
  then show ?thesis
    by (simp add: promote_def signed_ucast_eq signed_take_bit_int_eq_self_iff)
qed

lemma promote_sle9: "promote b \<le>s 9 \<longleftrightarrow> uint b \<le> 9"
  by (simp add: word_sle_eq sint_promote)

lemma uint_sum4:
  "uint (promote a + promote b + promote c + promote d) = uint a + uint b + uint c + uint d"
proof -
  have "uint a < 256" "uint b < 256" "uint c < 256" "uint d < 256"
    using uint_lt2p [of a] uint_lt2p [of b] uint_lt2p [of c] uint_lt2p [of d] by simp_all
  then show ?thesis
    by (simp add: uint_word_ariths uint_promote take_bit_int_eq_self_iff flip: take_bit_eq_mod)
qed

lemma uint_and_255: "uint ((x :: c_int) AND 255) = uint x mod 256"
proof -
  have "(255 :: c_int) = mask 8" by (simp add: mask_eq_exp_minus_1)
  then have "uint (x AND 255) = uint (take_bit 8 x)"
    by (simp only: take_bit_eq_mask)
  also have "\<dots> = take_bit 8 (uint x)" by (simp only: unsigned_take_bit_eq)
  also have "\<dots> = uint x mod 256" by (simp add: take_bit_eq_mod)
  finally show ?thesis .
qed

lemma masked_sum:
  "(promote a + promote b + promote c + promote d) AND 255 = promote e \<longleftrightarrow>
   (uint a + uint b + uint c + uint d) mod 256 = uint e"
  by (simp only: word_uint_eq_iff uint_and_255 uint_sum4 uint_promote)

subsection \<open>The decoder\<close>

lemma length_shift_in [simp]: "length (shift_in n bs d) = length d"
  by (induction bs arbitrary: n d) (simp_all add: shift1_def)

lemma shift_in_append:
  "shift_in n (xs @ ys) d = shift_in (n + length xs) ys (shift_in n xs d)"
  by (induction xs arbitrary: n d) simp_all

lemma bit_n_facts:
  fixes w :: u32
  assumes "unat w < 40"
  shows "unat (w div 8) = unat w div 8"
    and "unat (w + 1) = Suc (unat w)"
    and "40 \<le> w + 1 \<longleftrightarrow> unat w = 39"
    and "w = 0 \<longleftrightarrow> unat w = 0"
proof -
  show "unat (w div 8) = unat w div 8" by (simp add: unat_div)
  show s: "unat (w + 1) = Suc (unat w)"
    using assms by (simp add: unat_word_ariths)
  show "40 \<le> w + 1 \<longleftrightarrow> unat w = 39"
    using assms by (auto simp add: word_le_nat_alt s)
  show "w = 0 \<longleftrightarrow> unat w = 0" by (simp add: unat_eq_0)
qed

lemma doirq_pulse:
  assumes "state s = 3" and "unat (bit_n s) = n" and "n < 40"
  shows "doirq f False (doirq r True s) =
     s\<lparr>nominal := (if n = 0 then r - edge s else nominal s),
       edge := r,
       data := shift1 n ((if n = 0 then r - edge s else nominal s) < f - r) (data s),
       bit_n := bit_n s + 1,
       state := (if n = 39 then 0 else 3)\<rparr>"
  using assms bit_n_facts [of "bit_n s"]
  by (simp add: doirq_def shift1_def shl_or_def Let_def)


lemma run_pulses:
  assumes "state s = 3" and "unat (bit_n s) = n" and "n + length ps \<le> 40" and "ps \<noteq> []"
    and "nom = (if n = 0 then fst (hd ps) - edge s else nominal s)"
  shows "data (run (pulses ps) s) = shift_in n (widths nom ps) (data s) \<and>
         state (run (pulses ps) s) = (if n + length ps = 40 then 0 else 3)"
  using assms
proof (induction ps arbitrary: s n)
  case Nil
  then show ?case by simp
next
  case (Cons p ps)
  let ?s' = "doirq (snd p) False (doirq (fst p) True s)"
  from Cons.prems have n: "n < 40" by simp
  note step = doirq_pulse [OF Cons.prems(1,2) n, of "snd p" "fst p"]
  have nom: "nom = (if n = 0 then fst p - edge s else nominal s)"
    using Cons.prems(5) by simp
  show ?case
  proof (cases "ps = []")
    case True
    then show ?thesis
      using Cons.prems(3) by (simp add: step nom widths_def)
  next
    case False
    from Cons.prems(3) False have n39: "n \<noteq> 39" by (cases ps) auto
    have st: "state ?s' = 3" by (simp add: step n39)
    have bn: "unat (bit_n ?s') = Suc n"
      using bit_n_facts(2) [of "bit_n s"] Cons.prems(2) n by (simp add: step)
    have len: "Suc n + length ps \<le> 40" using Cons.prems(3) by simp
    have nom': "nom = (if Suc n = 0 then fst (hd ps) - edge ?s' else nominal ?s')"
      by (simp add: step nom)
    from Cons.IH [OF st bn len False nom']
    show ?thesis by (simp add: step nom widths_def)
  qed
qed


lemma bit_shl_or:
  "bit (shl_or w b) j \<longleftrightarrow> j < 8 \<and> (if j = 0 then b else bit w (j - 1))"
proof -
  let ?c = "(if b then 1 else 0) :: int"
  have 1: "bit (word_of_int (push_bit 1 (uint w) OR ?c) :: u8) j \<longleftrightarrow>
        j < 8 \<and> bit (push_bit 1 (uint w) OR ?c) j"
    by (simp only: bit_word_of_int_iff) simp
  have 2: "bit (push_bit 1 (uint w) OR ?c) j \<longleftrightarrow> bit (push_bit 1 (uint w)) j \<or> bit ?c j"
    by (simp only: bit_or_iff)
  have 3: "bit (push_bit 1 (uint w)) j \<longleftrightarrow> 1 \<le> j \<and> bit w (j - 1)"
    by (simp only: bit_push_bit_iff_int bit_uint_iff) (auto dest: bit_imp_le_length)
  have 4: "bit ?c j \<longleftrightarrow> b \<and> j = 0"
    by (simp add: bit_1_iff)
  have "bit (shl_or w b) j \<longleftrightarrow> j < 8 \<and> ((1 \<le> j \<and> bit w (j - 1)) \<or> (b \<and> j = 0))"
    by (simp only: shl_or_def 1 2 3 4)
  also have "\<dots> \<longleftrightarrow> j < 8 \<and> (if j = 0 then b else bit w (j - 1))"
    by (cases "j = 0") auto
  finally show ?thesis .
qed

lemma shift_in_bits:
  assumes "length d = 5" and "length bs \<le> 40" and "i < length bs"
  shows "bit (shift_in 0 bs d ! (i div 8)) (min (length bs) (8 * (i div 8) + 8) - 1 - i) = bs ! i"
  using assms(2,3)
proof (induction bs arbitrary: i rule: rev_induct)
  case Nil
  then show ?case by simp
next
  case (snoc b bs)
  define m where "m = length bs"
  define k where "k = m div 8"
  define d' where "d' = shift_in 0 bs d"
  have m: "m < 40" using snoc.prems(1) by (simp add: m_def)
  have lo: "8 * k \<le> m" and hi: "m < 8 * k + 8"
    unfolding k_def by presburger+
  have k5: "k < length d'" using m lo assms(1) by (simp add: d'_def)
  have new: "shift_in 0 (bs @ [b]) d = d'[k := shl_or (d' ! k) b]"
    by (simp add: shift_in_append shift1_def d'_def k_def m_def)
  have mins: "min (Suc m) (8 * k + 8) = Suc m" "min m (8 * k + 8) = m"
    using hi by simp_all
  have "bit (d'[k := shl_or (d' ! k) b] ! (i div 8)) (min (Suc m) (8 * (i div 8) + 8) - 1 - i)
        = (bs @ [b]) ! i"
  proof (cases "i = m")
    case True
    then have "i div 8 = k" by (simp add: k_def)
    then show ?thesis
      using k5 True by (simp add: mins bit_shl_or) (simp add: m_def)
  next
    case False
    then have i: "i < m" using snoc.prems(2) by (simp add: m_def)
    have "bit (d' ! (i div 8)) (min m (8 * (i div 8) + 8) - 1 - i) = bs ! i"
      using snoc.IH [of i] i m by (simp add: m_def d'_def)
    note IH = this
    have nth: "(bs @ [b]) ! i = bs ! i" using i by (simp add: nth_append m_def)
    show ?thesis
    proof (cases "i div 8 = k")
      case True
      have ilo: "8 * k \<le> i" using True by presburger
      have p: "Suc m - 1 - i = Suc (m - 1 - i)" using i by simp
      have q: "m - i < 8" using i ilo hi by simp
      show ?thesis
        using IH True k5 q i
        by (simp add: mins bit_shl_or p nth)
    next
      case False
      have "i div 8 \<le> k" unfolding k_def using i by (simp add: div_le_mono)
      with False have "Suc (i div 8) \<le> k" by simp
      then have "8 * Suc (i div 8) \<le> 8 * k" by simp
      with lo have c: "8 * (i div 8) + 8 \<le> m" by simp
      have p: "min (Suc m) (8 * (i div 8) + 8) = min m (8 * (i div 8) + 8)"
        using c by simp
      show ?thesis
        using IH False
        by (simp add: p nth)
    qed
  qed
  then show ?case by (simp add: new) (simp add: m_def)
qed


lemma length_frame_bits [simp]: "length (frame_bits d) = 40"
  by (simp add: frame_bits_def)

lemma nth_frame_bits: "i < 40 \<Longrightarrow> frame_bits d ! i = bit (d ! (i div 8)) (7 - i mod 8)"
  by (simp add: frame_bits_def)

lemma length_bit_pulses [simp]: "length (bit_pulses t bs) = length bs"
  by (induction bs arbitrary: t) simp_all

lemma widths_bit_pulses: "widths 50000 (bit_pulses t bs) = bs"
  by (induction bs arbitrary: t) (simp_all add: widths_def)

lemma hd_bit_pulses: "bs \<noteq> [] \<Longrightarrow> fst (hd (bit_pulses t bs)) - t = 50000"
  by (cases bs) simp_all

lemma acquire_start:
  "run ((t0, True) # (t1, False) # evs) (arm (disarm s)) =
   run evs (s\<lparr>edge := t1, bit_n := 0, state := 3\<rparr>)"
  by (simp add: arm_def disarm_def doirq_def)

lemma acquire_frame:
  assumes "length (data s) = 5" and "length ps = 40"
  shows "state (acquire ((t0, True) # (t1, False) # pulses ps) s) = 0"
    and "length (data (acquire ((t0, True) # (t1, False) # pulses ps) s)) = 5"
    and "frame_bits (data (acquire ((t0, True) # (t1, False) # pulses ps) s))
           = widths (fst (hd ps) - t1) ps"
proof -
  let ?s0 = "s\<lparr>edge := t1, bit_n := 0, state := 3\<rparr>"
  let ?nom = "fst (hd ps) - t1"
  let ?s' = "acquire ((t0, True) # (t1, False) # pulses ps) s"
  have s': "?s' = run (pulses ps) ?s0"
    by (simp only: acquire_def acquire_start)
  have ne: "ps \<noteq> []" using assms(2) by auto
  have r: "data ?s' = shift_in 0 (widths ?nom ps) (data s) \<and> state ?s' = 0"
    using run_pulses [of ?s0 0 ps ?nom] assms(2) ne by (simp add: s')
  then show "state ?s' = 0" by simp
  from r show len: "length (data ?s') = 5" by (simp add: assms(1))
  show "frame_bits (data ?s') = widths ?nom ps"
  proof (rule nth_equalityI)
    show "length (frame_bits (data ?s')) = length (widths ?nom ps)"
      by (simp add: widths_def assms(2))
  next
    fix i assume "i < length (frame_bits (data ?s'))"
    then have i: "i < 40" by simp
    have lo: "8 * (i div 8) \<le> i" and hi: "i < 8 * (i div 8) + 8" by presburger+
    from i have "i div 8 < 5" by simp
    then have "8 * (i div 8) + 8 \<le> 40" by simp
    then have m: "min 40 (8 * (i div 8) + 8) = 8 * (i div 8) + 8" by simp
    have pos: "7 + 8 * (i div 8) - i = 7 - i mod 8" by presburger
    have "bit (shift_in 0 (widths ?nom ps) (data s) ! (i div 8))
            (min (length (widths ?nom ps)) (8 * (i div 8) + 8) - 1 - i) = widths ?nom ps ! i"
      by (rule shift_in_bits) (simp_all add: assms widths_def i)
    then have "bit (data ?s' ! (i div 8)) (7 - i mod 8) = widths ?nom ps ! i"
      using r by (simp add: widths_def assms(2) m pos)
    then show "frame_bits (data ?s') ! i = widths ?nom ps ! i"
      by (simp add: nth_frame_bits i)
  qed
qed

lemma frame_bits_inject:
  assumes "length d = 5" and "length d' = 5" and "frame_bits d = frame_bits d'"
  shows "d = d'"
proof (rule nth_equalityI)
  show "length d = length d'" using assms by simp
next
  fix k assume "k < length d"
  then have k: "k < 5" using assms(1) by simp
  show "d ! k = d' ! k"
  proof (rule bit_word_eqI)
    fix j assume "j < LENGTH(8)"
    then have j: "j < 8" by simp
    define r where "r = 7 - j"
    define i where "i = 8 * k + r"
    have r: "r < 8" "7 - r = j" using j by (simp_all add: r_def)
    have i: "i < 40" using k r(1) by (simp add: i_def)
    have dv: "i div 8 = k" using r(1) by (simp add: i_def)
    have md: "7 - i mod 8 = j" using r by (simp add: i_def)
    have "frame_bits d ! i = frame_bits d' ! i" using assms(3) by simp
    then show "bit (d ! k) j = bit (d' ! k) j"
      by (simp add: nth_frame_bits i dv md)
  qed
qed

lemma acquire_response:
  assumes "length (data s) = 5" and "length d = 5"
  shows "state (acquire (dht11_response t (frame_bits d)) s) = 0"
    and "data (acquire (dht11_response t (frame_bits d)) s) = d"
proof -
  let ?ps = "bit_pulses (t + 80000) (frame_bits d)"
  have len: "length ?ps = 40" by simp
  have ne: "frame_bits d \<noteq> []" by (simp add: frame_bits_def)
  have nom: "fst (hd ?ps) - (t + 80000) = 50000" by (rule hd_bit_pulses [OF ne])
  note fr = acquire_frame [OF assms(1) len, of t "t + 80000"]
  show "state (acquire (dht11_response t (frame_bits d)) s) = 0"
    using fr(1) by (simp add: dht11_response_def)
  have "frame_bits (data (acquire (dht11_response t (frame_bits d)) s)) = frame_bits d"
    using fr(3) by (simp only: dht11_response_def nom widths_bit_pulses)
  moreover have "length (data (acquire (dht11_response t (frame_bits d)) s)) = 5"
    using fr(2) by (simp add: dht11_response_def)
  ultimately show "data (acquire (dht11_response t (frame_bits d)) s) = d"
    using assms(2) by (rule_tac frame_bits_inject) 
qed

lemma doirq_keeps_index:
  assumes "state s = 3 \<longrightarrow> unat (bit_n s) < 40"
  shows "state (doirq now v s) = 3 \<longrightarrow> unat (bit_n (doirq now v s)) < 40"
proof (cases "state s = 3 \<and> \<not> v")
  case True
  then have n: "unat (bit_n s) < 40" using assms by simp
  show ?thesis
    using True n bit_n_facts [OF n]
    by (auto simp add: doirq_def Let_def)
next
  case False
  then show ?thesis
    using assms by (auto simp add: doirq_def Let_def)
qed

text \<open>
  Claim C2. The thread arms the handler, the handler sees the initial high (at \<open>t0\<close>) and
  the reference low edge (at \<open>t1\<close>), and then 40 pulses \<open>ps\<close>, each a rising and a
  falling timestamp. Whatever the bytes held before, the handler ends in state 0, and bit
  \<open>i\<close> of the stream sits in byte \<open>i div 8\<close> at bit position \<open>7 - i mod 8\<close> (most
  significant bit first); it is 1 exactly when the high time of pulse \<open>i\<close> exceeds the
  nominal width, the time from the reference edge to the first rising edge. All
  differences are taken modulo \<open>2 ^ 64\<close> as in the source.
\<close>

theorem decoder_reconstructs_frame:
  assumes "length (data s) = 5" and "length ps = 40" and "i < 40"
  shows "let s' = acquire ((t0, True) # (t1, False) # pulses ps) s;
             nom = fst (hd ps) - t1
         in state s' = 0 \<and> length (data s') = 5 \<and>
            bit (data s' ! (i div 8)) (7 - i mod 8) = (nom < snd (ps ! i) - fst (ps ! i))"
proof -
  let ?s' = "acquire ((t0, True) # (t1, False) # pulses ps) s"
  let ?nom = "fst (hd ps) - t1"
  note fr = acquire_frame [OF assms(1,2), of t0 t1]
  have "frame_bits (data ?s') ! i = widths ?nom ps ! i"
    using fr(3) by simp
  then have "bit (data ?s' ! (i div 8)) (7 - i mod 8) = (?nom < snd (ps ! i) - fst (ps ! i))"
    using assms(2,3) by (simp add: nth_frame_bits widths_def)
  then show ?thesis using fr(1,2) by (simp add: Let_def)
qed

theorem decoder_reconstructs_frame_witness:
  "length (data init_driver) = 5 \<and>
   length (bit_pulses 80000 (frame_bits sample_frame)) = 40 \<and>
   (1 :: nat) < 40 \<and>
   state (acquire sample_edges init_driver) = 0 \<and>
   length (data (acquire sample_edges init_driver)) = 5 \<and>
   bit (data (acquire sample_edges init_driver) ! 0) 6"
proof -
  let ?ps = "bit_pulses 80000 (frame_bits sample_frame)"
  have a: "length (data init_driver) = 5" by (simp add: init_driver_def)
  have b: "length ?ps = 40" by simp
  have c: "(1 :: nat) < 40" by simp
  have ne: "frame_bits sample_frame \<noteq> []" by (simp add: frame_bits_def)
  have nom: "fst (hd ?ps) - 80000 = 50000" by (rule hd_bit_pulses [OF ne])
  have "widths 50000 ?ps ! 1 = frame_bits sample_frame ! 1"
    by (simp only: widths_bit_pulses)
  then have w: "(50000 < snd (?ps ! 1) - fst (?ps ! 1)) = frame_bits sample_frame ! 1"
    by (simp add: widths_def)
  have f: "frame_bits sample_frame ! 1"
    by (simp add: nth_frame_bits sample_frame_def)
  have e: "sample_edges = (0, True) # (80000, False) # pulses ?ps"
    by (simp add: sample_edges_def dht11_response_def)
  show ?thesis
    using decoder_reconstructs_frame [OF a b c, of 0 80000] a b w f
    by (simp add: Let_def nom e)
qed

subsection \<open>Validation\<close>

text \<open>
  Claim C1. A frame is acquired when the handler has returned to state 0 by the end of the
  window. An acquired frame is accepted exactly when the sum of its first four bytes,
  reduced modulo 256, equals the fifth byte and both fraction bytes are at most 9; so a
  frame that fails one of the three conditions is rejected.
\<close>

theorem acquired_frame_accepted_iff:
  assumes "state (acquire evs s) = 0" and "d = data (acquire evs s)"
  shows "cycle_ok evs s \<longleftrightarrow>
     (uint (d ! 0) + uint (d ! 1) + uint (d ! 2) + uint (d ! 3)) mod 256 = uint (d ! 4)
     \<and> uint (d ! 1) \<le> 9 \<and> uint (d ! 3) \<le> 9"
  using assms by (auto simp add: cycle_ok_def accepted_def masked_sum promote_sle9)

theorem acquired_frame_accepted_iff_witness:
  "state (acquire sample_edges init_driver) = 0 \<and>
   sample_frame = data (acquire sample_edges init_driver) \<and>
   cycle_ok sample_edges init_driver"
proof -
  have a: "length (data init_driver) = 5" by (simp add: init_driver_def)
  have b: "length sample_frame = 5" by (simp add: sample_frame_def)
  note r = acquire_response [OF a b, of 0, folded sample_edges_def]
  show ?thesis
    using acquired_frame_accepted_iff [OF r(1) r(2) [symmetric]] r
    by (simp add: sample_frame_def)
qed

subsection \<open>Publishing a reading\<close>

lemma sint_tenths:
  "sint (promote a * 10 + promote b) = uint a * 10 + uint b"
proof -
  have a: "0 \<le> uint a" "uint a < 256" and b: "0 \<le> uint b" "uint b < 256"
    using uint_lt2p [of a] uint_lt2p [of b] by simp_all
  have "sint (promote a * 10) = signed_take_bit 31 (sint (promote a) * 10)"
    by (simp add: sint_word_ariths)
  also have "\<dots> = uint a * 10"
  proof -
    have "- 2147483648 \<le> uint a * 10" "uint a * 10 < 2147483648"
      using a by linarith+
    then show ?thesis
      by (simp only: sint_promote signed_take_bit_int_eq_self_iff) simp
  qed
  finally have m: "sint (promote a * 10) = uint a * 10" .
  have "sint (promote a * 10 + promote b)
        = signed_take_bit 31 (sint (promote a * 10) + sint (promote b))"
    by (simp add: sint_word_ariths)
  also have "\<dots> = uint a * 10 + uint b"
  proof -
    have "- 2147483648 \<le> uint a * 10 + uint b" "uint a * 10 + uint b < 2147483648"
      using a b by linarith+
    then show ?thesis
      by (simp only: m sint_promote signed_take_bit_int_eq_self_iff) simp
  qed
  finally show ?thesis .
qed

lemma sint_valid_dec:
  assumes "0 \<le> sint (v :: c_int)"
  shows "sint (if v \<noteq> 0 then v - 1 else v) = max 0 (sint v - 1)"
proof (cases "v = 0")
  case True
  then show ?thesis by simp
next
  case False
  then have "sint v \<noteq> 0" by (metis signed_eq_0_iff)
  with assms have pos: "0 < sint v" by simp
  have up: "sint v < 2147483648" using sint_lt [of v] by simp
  have "sint (v - 1) = signed_take_bit 31 (sint v - 1)"
    by (simp add: sint_word_ariths)
  also have "\<dots> = sint v - 1"
    using pos up by (simp add: signed_take_bit_int_eq_self_iff)
  finally show ?thesis using False pos by simp
qed

lemma cycle_success:
  assumes "cycle_ok evs s"
  shows "dothread_cycle evs s =
     (acquire evs s)\<lparr>state := 0, valid := 5,
        humidity := promote (data (acquire evs s) ! 0) * 10 + promote (data (acquire evs s) ! 1),
        temperature := promote (data (acquire evs s) ! 2) * 10 + promote (data (acquire evs s) ! 3)\<rparr>"
  using assms by (simp add: dothread_cycle_def cycle_ok_def disarm_def Let_def)

lemma cycle_failure:
  assumes "\<not> cycle_ok evs s"
  shows "dothread_cycle evs s =
     (acquire evs s)\<lparr>state := 0,
        valid := (if valid (acquire evs s) \<noteq> 0 then valid (acquire evs s) - 1
                  else valid (acquire evs s))\<rparr>"
  using assms by (simp add: dothread_cycle_def cycle_ok_def disarm_def Let_def)

lemma doirq_results [simp]:
  "valid (doirq now v s) = valid s"
  "humidity (doirq now v s) = humidity s"
  "temperature (doirq now v s) = temperature s"
  by (simp_all add: doirq_def Let_def)

lemma run_results [simp]:
  "valid (run evs s) = valid s"
  "humidity (run evs s) = humidity s"
  "temperature (run evs s) = temperature s"
  by (induction evs arbitrary: s) simp_all

lemma acquire_results [simp]:
  "valid (acquire evs s) = valid s"
  "humidity (acquire evs s) = humidity s"
  "temperature (acquire evs s) = temperature s"
  by (simp_all add: acquire_def arm_def disarm_def)

lemma timeout_fails: "\<not> cycle_ok [] s"
  by (simp add: cycle_ok_def acquire_def arm_def disarm_def accepted_def)


lemma sample_acquired:
  "state (acquire sample_edges init_driver) = 0"
  "data (acquire sample_edges init_driver) = sample_frame"
proof -
  have a: "length (data init_driver) = 5" by (simp add: init_driver_def)
  have b: "length sample_frame = 5" by (simp add: sample_frame_def)
  show "state (acquire sample_edges init_driver) = 0"
    unfolding sample_edges_def by (rule acquire_response(1) [OF a b])
  show "data (acquire sample_edges init_driver) = sample_frame"
    unfolding sample_edges_def by (rule acquire_response(2) [OF a b])
qed

lemma sample_ok: "cycle_ok sample_edges init_driver"
  by (simp add: cycle_ok_def sample_acquired accepted_def masked_sum promote_sle9)
     (simp add: sample_frame_def)

text \<open>
  Claim C4. When a poll accepts the frame \<open>d\<close>, the published humidity is
  \<open>d[0] * 10 + d[1]\<close> and the published temperature is \<open>d[2] * 10 + d[3]\<close>, as
  integers: the 32-bit arithmetic of the source does not wrap on these values, and no
  other arithmetic is involved.
\<close>

theorem published_values_are_tenths:
  assumes "cycle_ok evs s" and "d = data (acquire evs s)"
  shows "sint (humidity (dothread_cycle evs s)) = uint (d ! 0) * 10 + uint (d ! 1) \<and>
         sint (temperature (dothread_cycle evs s)) = uint (d ! 2) * 10 + uint (d ! 3)"
  by (simp add: cycle_success [OF assms(1)] assms(2) sint_tenths)

theorem published_values_are_tenths_witness:
  "cycle_ok sample_edges init_driver \<and>
   sample_frame = data (acquire sample_edges init_driver) \<and>
   sint (humidity (dothread_cycle sample_edges init_driver)) = 65 * 10 + 2 \<and>
   sint (temperature (dothread_cycle sample_edges init_driver)) = 23 * 10 + 3"
  using published_values_are_tenths [OF sample_ok sample_acquired(2) [symmetric]]
  by (simp add: sample_ok sample_acquired) (simp add: sample_frame_def)

text \<open>
  Claim C3, as amended. A poll that completes with the bytes 0x41, 0x02, 0x17, 0x03, 0x5D
  accepts the frame, publishes humidity 652 and temperature 233 (0x41 is 65 and 0x17 is
  23), and sets the validity counter to 5.
\<close>

theorem scenario_one_reading:
  assumes "state (acquire evs s) = 0"
    and "data (acquire evs s) = [0x41, 0x02, 0x17, 0x03, 0x5D]"
  shows "cycle_ok evs s \<and>
         sint (humidity (dothread_cycle evs s)) = 652 \<and>
         sint (temperature (dothread_cycle evs s)) = 233 \<and>
         sint (valid (dothread_cycle evs s)) = 5"
proof -
  have ok: "cycle_ok evs s"
    by (simp add: cycle_ok_def assms accepted_def masked_sum promote_sle9)
  show ?thesis
    by (simp add: ok cycle_success [OF ok] assms(2) sint_tenths)
qed

theorem scenario_one_reading_witness:
  "state (acquire sample_edges init_driver) = 0 \<and>
   data (acquire sample_edges init_driver) = [0x41, 0x02, 0x17, 0x03, 0x5D] \<and>
   cycle_ok sample_edges init_driver \<and>
   sint (humidity (dothread_cycle sample_edges init_driver)) = 652 \<and>
   sint (temperature (dothread_cycle sample_edges init_driver)) = 233 \<and>
   sint (valid (dothread_cycle sample_edges init_driver)) = 5"
  using scenario_one_reading [of sample_edges init_driver] sample_acquired
  by (simp add: sample_frame_def)

text \<open>
  Claim C3, as stated, fails: for the sample frame delivered with the documented timing,
  the published reading is neither humidity 412 nor temperature 173.
\<close>

theorem scenario_one_not_412_173:
  "state (acquire sample_edges init_driver) = 0 \<and>
   data (acquire sample_edges init_driver) = [0x41, 0x02, 0x17, 0x03, 0x5D] \<and>
   sint (humidity (dothread_cycle sample_edges init_driver)) \<noteq> 412 \<and>
   sint (temperature (dothread_cycle sample_edges init_driver)) \<noteq> 173"
proof -
  have d: "data (acquire sample_edges init_driver) = [0x41, 0x02, 0x17, 0x03, 0x5D]"
    by (simp add: sample_acquired sample_frame_def)
  show ?thesis
    by (simp add: sample_acquired(1) d cycle_success [OF sample_ok] sint_tenths)
qed

lemma failed_cycle_store:
  assumes "\<not> cycle_ok evs s"
  shows "humidity (dothread_cycle evs s) = humidity s"
    and "temperature (dothread_cycle evs s) = temperature s"
    and "valid (dothread_cycle evs s) = (if valid s \<noteq> 0 then valid s - 1 else valid s)"
  by (simp_all add: cycle_failure [OF assms])

lemma failed_cycles_valid:
  assumes "0 \<le> sint (valid s)" and "all_failed fs s"
  shows "sint (valid (run_cycles fs s)) = max 0 (sint (valid s) - int (length fs))"
  using assms
proof (induction fs arbitrary: s)
  case Nil
  then show ?case by simp
next
  case (Cons evs fs)
  let ?s1 = "dothread_cycle evs s"
  from Cons.prems(2) have f: "\<not> cycle_ok evs s" and r: "all_failed fs ?s1" by simp_all
  have v1: "sint (valid ?s1) = max 0 (sint (valid s) - 1)"
    by (simp only: failed_cycle_store(3) [OF f] sint_valid_dec [OF Cons.prems(1)])
  then have nn: "0 \<le> sint (valid ?s1)" by simp
  show ?case
    using Cons.IH [OF nn r] v1 by simp
qed

lemma failed_cycles_reading:
  assumes "all_failed fs s"
  shows "humidity (run_cycles fs s) = humidity s \<and> temperature (run_cycles fs s) = temperature s"
  using assms
  by (induction fs arbitrary: s) (simp_all add: failed_cycle_store)

text \<open>
  Claim C5. A successful poll sets the validity counter to 5. From a state where the
  counter is 5, any \<open>N\<close> consecutive failed polls leave it at \<open>max 0 (5 - N)\<close>: one less
  per failure, never below 0.
\<close>

theorem validity_counter_decay:
  assumes "cycle_ok evs s0" and "sint (valid s) = 5" and "all_failed fs s"
  shows "sint (valid (dothread_cycle evs s0)) = 5 \<and>
         sint (valid (run_cycles fs s)) = max 0 (5 - int (length fs)) \<and>
         0 \<le> sint (valid (run_cycles fs s))"
proof -
  have "0 \<le> sint (valid s)" using assms(2) by simp
  from failed_cycles_valid [OF this assms(3)]
  show ?thesis by (simp add: cycle_success [OF assms(1)] assms(2))
qed

lemma all_failed_timeouts: "all_failed (replicate n []) s"
  by (induction n arbitrary: s) (simp_all add: timeout_fails)

theorem validity_counter_decay_witness:
  "cycle_ok sample_edges init_driver \<and>
   sint (valid (dothread_cycle sample_edges init_driver)) = 5 \<and>
   all_failed (replicate 7 []) (dothread_cycle sample_edges init_driver) \<and>
   sint (valid (run_cycles (replicate 7 []) (dothread_cycle sample_edges init_driver))) = 0"
proof -
  let ?s = "dothread_cycle sample_edges init_driver"
  have v: "sint (valid ?s) = 5" by (simp add: cycle_success [OF sample_ok])
  show ?thesis
    using validity_counter_decay [OF sample_ok v all_failed_timeouts [of 7 ?s]]
    by (simp add: sample_ok all_failed_timeouts)
qed

text \<open>
  Claim C9, as amended. A failed poll (timeout, checksum mismatch or fraction out of range)
  leaves the stored humidity and temperature as they were; the validity counter goes down
  by 1 when it is not 0 and stays 0 otherwise.
\<close>

theorem failed_cycle_keeps_reading:
  assumes "\<not> cycle_ok evs s" and "0 \<le> sint (valid s)"
  shows "humidity (dothread_cycle evs s) = humidity s \<and>
         temperature (dothread_cycle evs s) = temperature s \<and>
         sint (valid (dothread_cycle evs s)) = (if valid s = 0 then 0 else sint (valid s) - 1)"
proof -
  have "sint (valid (dothread_cycle evs s)) = max 0 (sint (valid s) - 1)"
    by (simp only: failed_cycle_store(3) [OF assms(1)] sint_valid_dec [OF assms(2)])
  moreover have "valid s = 0 \<longleftrightarrow> sint (valid s) = 0" by (simp add: signed_eq_0_iff)
  ultimately show ?thesis
    using assms(2) by (auto simp add: failed_cycle_store [OF assms(1)])
qed

theorem failed_cycle_keeps_reading_witness:
  "\<not> cycle_ok [] (dothread_cycle sample_edges init_driver) \<and>
   0 \<le> sint (valid (dothread_cycle sample_edges init_driver)) \<and>
   sint (humidity (dothread_cycle [] (dothread_cycle sample_edges init_driver))) = 652 \<and>
   sint (temperature (dothread_cycle [] (dothread_cycle sample_edges init_driver))) = 233 \<and>
   sint (valid (dothread_cycle [] (dothread_cycle sample_edges init_driver))) = 4"
proof -
  let ?s = "dothread_cycle sample_edges init_driver"
  have d: "data (acquire sample_edges init_driver) = [0x41, 0x02, 0x17, 0x03, 0x5D]"
    by (simp add: sample_acquired sample_frame_def)
  have v: "valid ?s = 5" "sint (humidity ?s) = 652" "sint (temperature ?s) = 233"
    by (simp_all add: cycle_success [OF sample_ok] d sint_tenths)
  have nn: "0 \<le> sint (valid ?s)" by (simp add: v)
  show ?thesis
    using failed_cycle_keeps_reading [OF timeout_fails nn] v
    by (simp add: timeout_fails)
qed

text \<open>
  Claim C9, as stated, fails: a timeout in the initial state, where the validity counter
  is 0, does not decrement the counter.
\<close>

theorem failed_cycle_at_zero_no_decrement:
  "\<not> cycle_ok [] init_driver \<and>
   sint (valid (dothread_cycle [] init_driver)) \<noteq> sint (valid init_driver) - 1"
  by (simp add: timeout_fails failed_cycle_store(3) [OF timeout_fails]) (simp add: init_driver_def)


subsection \<open>Reading the device\<close>

lemma digit_not_NUL: "n < 10 \<Longrightarrow> digit n \<noteq> NUL"
proof -
  assume "n < 10"
  then have "digit n \<in> set ''0123456789''"
    unfolding digit_def by (intro nth_mem) simp
  then show ?thesis by (auto simp add: NUL_def)
qed

lemma dec_nat_no_NUL: "NUL \<notin> set (dec_nat n)"
proof (induction n rule: dec_nat.induct)
  case (1 n)
  show ?case
  proof (cases "n < 10")
    case True
    then show ?thesis
      using digit_not_NUL [of n] by (simp add: dec_nat.simps [of n])
  next
    case False
    have "n mod 10 < 10" by simp
    then have "digit (n mod 10) \<noteq> NUL" by (rule digit_not_NUL)
    then show ?thesis
      using 1 False by (simp add: dec_nat.simps [of n])
  qed
qed

lemma dec_int_no_NUL: "NUL \<notin> set (dec_int i)"
  by (simp add: dec_int_def dec_nat_no_NUL) (simp add: NUL_def)

lemma format_reading_no_NUL: "NUL \<notin> set (format_reading h t)"
  by (simp add: format_reading_def dec_int_no_NUL) (simp add: NUL_def)

lemma strlen_terminated:
  assumes "NUL \<notin> set str"
  shows "strlen (str @ NUL # rest) = length str"
proof -
  have "takeWhile (\<lambda>c. c \<noteq> NUL) (str @ NUL # rest) = str @ takeWhile (\<lambda>c. c \<noteq> NUL) (NUL # rest)"
    by (rule takeWhile_append2) (use assms in auto)
  then show ?thesis by (simp add: strlen_def)
qed

lemma deliver_eq:
  "deliver w len n f =
     Inr (min (min n len) w, take (min (min n len) w) (drop (ofs f) (private_data f)),
          f\<lparr>ofs := ofs f + min (min n len) w\<rparr>)"
  by (simp add: deliver_def copy_to_user_def Let_def min_def)

lemma doread_zero:
  assumes "ofs f = 0" and "valid s \<noteq> 0"
    and "str = format_reading (humidity s) (temperature s)"
    and "m = min (min (length str + 1) len) w"
  shows "doread w len f s =
     Inr (m, take m (str @ [NUL]),
          f\<lparr>private_data := fst (sprintf (private_data f) str), ofs := m\<rparr>)"
proof -
  have "m \<le> length str + 1" by (simp add: assms(4))
  then have "m - length str = 0 \<or> m - length str = Suc 0" by arith
  then have "take m (str @ NUL # drop (Suc (length str)) (private_data f)) = take m (str @ [NUL])"
    by auto
  then show ?thesis
    using assms by (simp add: doread_def sprintf_def deliver_eq)
qed

lemma doread_nonzero:
  assumes "0 < ofs f" and "m = min (min (strlen (private_data f) - ofs f) len) w"
  shows "doread w len f s =
     Inr (m, take m (drop (ofs f) (private_data f)), f\<lparr>ofs := ofs f + m\<rparr>)"
proof (cases "strlen (private_data f) \<le> ofs f")
  case True
  then have "m = 0" by (simp add: assms(2))
  then show ?thesis using assms(1) True by (simp add: doread_def)
next
  case False
  then have "nat (int (strlen (private_data f)) - int (ofs f)) = strlen (private_data f) - ofs f"
    by simp
  then show ?thesis
    using assms False by (simp add: doread_def deliver_eq)
qed


lemma published_store:
  "valid published = 5" "humidity published = 652" "temperature published = 233"
proof -
  have d: "data (acquire sample_edges init_driver) = [0x41, 0x02, 0x17, 0x03, 0x5D]"
    by (simp add: sample_acquired sample_frame_def)
  show "valid published = 5" "humidity published = 652" "temperature published = 233"
    unfolding published_def
    by (simp_all add: cycle_success [OF sample_ok] d promote_def)
qed

lemma stale_store:
  "valid stale = 0" "humidity stale = 652" "temperature stale = 233"
proof -
  have nn: "0 \<le> sint (valid published)" by (simp add: published_store)
  have "sint (valid stale) = max 0 (sint (valid published) - int (length (replicate 5 ([] :: (u64 \<times> bool) list))))"
    unfolding stale_def by (rule failed_cycles_valid [OF nn all_failed_timeouts])
  then have "sint (valid stale) = 0" by (simp add: published_store)
  then show "valid stale = 0" by (simp add: signed_eq_0_iff)
  show "humidity stale = 652" "temperature stale = 233"
    unfolding stale_def
    using failed_cycles_reading [OF all_failed_timeouts, of 5 published]
    by (simp_all add: published_store)
qed

lemma sample_text: "format_reading 652 233 = ''652 233'' @ [CHR 0x0A]"
  by code_simp

text \<open>
  Claim C6, as amended. A read at file position 0 fails, with \<open>EINVAL\<close>, exactly when
  the validity counter is 0. When the counter is not 0 the read does not fail: it formats
  the stored reading, which after any number of failed polls \<open>fs\<close> is still the reading
  of the state \<open>s\<close> before them, and returns the first \<open>m\<close> bytes of that text and its
  terminator, \<open>m\<close> being limited by the requested length and by the user buffer.
\<close>

theorem read_at_offset_zero:
  assumes "ofs f = 0" and "all_failed fs s"
  shows "let s' = run_cycles fs s;
             str = format_reading (humidity s) (temperature s);
             m = min (min (length str + 1) len) w
         in (doread w len f s' = Inl EINVAL \<longleftrightarrow> valid s' = 0) \<and>
            (valid s' \<noteq> 0 \<longrightarrow>
               doread w len f s' =
                 Inr (m, take m (str @ [NUL]),
                      f\<lparr>private_data := fst (sprintf (private_data f) str), ofs := m\<rparr>))"
proof -
  let ?s' = "run_cycles fs s"
  have same: "humidity ?s' = humidity s" "temperature ?s' = temperature s"
    using failed_cycles_reading [OF assms(2)] by simp_all
  have z: "valid ?s' = 0 \<Longrightarrow> doread w len f ?s' = Inl EINVAL"
    using assms(1) by (simp add: doread_def)
  have nz: "valid ?s' \<noteq> 0 \<Longrightarrow> doread w len f ?s' =
      Inr (min (min (length (format_reading (humidity s) (temperature s)) + 1) len) w,
           take (min (min (length (format_reading (humidity s) (temperature s)) + 1) len) w)
             (format_reading (humidity s) (temperature s) @ [NUL]),
           f\<lparr>private_data := fst (sprintf (private_data f) (format_reading (humidity s) (temperature s))),
             ofs := min (min (length (format_reading (humidity s) (temperature s)) + 1) len) w\<rparr>)"
    using doread_zero [OF assms(1), of ?s' _ _ len w] by (simp add: same)
  show ?thesis
    unfolding Let_def using z nz by (cases "valid ?s' = 0") auto
qed

theorem read_at_offset_zero_witness:
  "ofs opened = 0 \<and> all_failed (replicate 4 []) published \<and>
   valid (run_cycles (replicate 4 []) published) \<noteq> 0 \<and>
   doread 32 32 opened (run_cycles (replicate 4 []) published) =
     Inr (9, ''652 233'' @ [CHR 0x0A, NUL],
          opened\<lparr>private_data := ''652 233'' @ [CHR 0x0A, NUL] @ replicate 23 NUL, ofs := 9\<rparr>)"
proof -
  let ?fs = "replicate 4 ([] :: (u64 \<times> bool) list)"
  have a: "ofs opened = 0" by (simp add: opened_def)
  have b: "all_failed ?fs published" by (rule all_failed_timeouts)
  have nn: "0 \<le> sint (valid published)" by (simp add: published_store)
  have "sint (valid (run_cycles ?fs published)) = 1"
    using failed_cycles_valid [OF nn b] by (simp add: published_store)
  then have c: "valid (run_cycles ?fs published) \<noteq> 0" by auto
  show ?thesis
    using read_at_offset_zero [OF a b, of 32 32] a b c
    by (simp add: Let_def published_store sample_text sprintf_def opened_def)
qed

text \<open>
  Claim C6, as stated, fails: after a three-byte read from \<open>published\<close> the file position
  is 3, and a read from \<open>stale\<close>, where the validity counter is 0, returns the rest of
  the text instead of an error.
\<close>

theorem read_at_nonzero_offset_ignores_validity:
  "doread 32 3 opened published = Inr (3, ''652'', partly_read) \<and>
   valid stale = 0 \<and>
   doread 32 32 partly_read stale =
     Inr (5, '' 233'' @ [CHR 0x0A], partly_read\<lparr>ofs := 8\<rparr>)"
proof -
  have 1: "doread 32 3 opened published = Inr (3, ''652'', partly_read)"
    by (simp add: doread_def published_store sample_text sprintf_def deliver_eq
        opened_def partly_read_def)
  have 2: "doread 32 32 partly_read stale = Inr (5, '' 233'' @ [CHR 0x0A], partly_read\<lparr>ofs := 8\<rparr>)"
    by (simp add: doread_def deliver_eq partly_read_def strlen_def NUL_def)
  show ?thesis using 1 2 by (simp add: stale_store)
qed

text \<open>
  Claim C7. With the counter at 5, humidity 652 and temperature 233, a read of 32 bytes at
  position 0 returns 9 bytes: the 8 bytes of the text \<open>652 233\<close> with its newline, and
  the terminating NUL after the newline. The count comes from \<open>sprintf(...) + 1\<close>; the
  branch for a non-zero position counts with \<open>strlen\<close> and never returns the NUL.
\<close>

theorem read_returns_trailing_nul:
  "valid published = 5 \<and> ofs opened = 0 \<and>
   doread 32 32 opened published =
     Inr (9, ''652 233'' @ [CHR 0x0A, CHR 0x00],
          \<lparr>private_data = ''652 233'' @ [CHR 0x0A, NUL] @ replicate 23 NUL, ofs = 9\<rparr>)"
  by (simp add: doread_def published_store sample_text sprintf_def deliver_eq opened_def NUL_def)

text \<open>
  Claim C10. Let a read at position 0, with the validity counter not 0, return \<open>m0\<close>
  bytes and leave the file \<open>f1\<close>, at position \<open>m0\<close>. A later read of \<open>f1\<close> at any
  position \<open>k > 0\<close>, in any driver state \<open>s\<close>, returns the bytes of the text formatted
  by the first read from \<open>k\<close> on (none, with return value 0, when \<open>k\<close> is at or past
  the end of the text), again limited by the requested length and the user buffer. The
  validity counter of \<open>s\<close> plays no part, while a read at position 0 in a state with
  counter 0 is rejected.
\<close>

theorem remainder_read_skips_validity_check:
  assumes "ofs f0 = 0" and "valid s0 \<noteq> 0"
    and "doread w0 len0 f0 s0 = Inr (m0, b0, f1)" and "0 < k"
  shows "let str = format_reading (humidity s0) (temperature s0);
             m = min (min (length str - k) len) w
         in ofs f1 = m0 \<and>
            doread w len (f1\<lparr>ofs := k\<rparr>) s =
              Inr (m, take m (drop k str), f1\<lparr>ofs := k + m\<rparr>) \<and>
            (valid s = 0 \<longrightarrow> doread w len f0 s = Inl EINVAL)"
proof -
  define str where "str = format_reading (humidity s0) (temperature s0)"
  define m where "m = min (min (length str - k) len) w"
  define m0' where "m0' = min (min (length str + 1) len0) w0"
  define fk where "fk = f1\<lparr>ofs := k\<rparr>"
  from doread_zero [OF assms(1,2) str_def m0'_def] assms(3)
  have f1: "f1 = f0\<lparr>private_data := fst (sprintf (private_data f0) str), ofs := m0\<rparr>"
    by simp
  then have o: "ofs f1 = m0"
    and p: "private_data fk = str @ NUL # drop (Suc (length str)) (private_data f0)"
    by (simp_all add: sprintf_def fk_def)
  have nn: "NUL \<notin> set str" unfolding str_def by (rule format_reading_no_NUL)
  have sl: "strlen (private_data fk) = length str"
    by (simp only: p strlen_terminated [OF nn])
  have pos: "0 < ofs fk" using assms(4) by (simp add: fk_def)
  have ofk: "ofs fk = k" by (simp add: fk_def)
  have m': "m = min (min (strlen (private_data fk) - ofs fk) len) w"
    by (simp only: m_def sl ofk)
  have "m \<le> length str - k" by (simp add: m_def)
  then have tk: "take m (drop k (private_data fk)) = take m (drop k str)"
    by (simp add: p)
  have "doread w len fk s = Inr (m, take m (drop k (private_data fk)), fk\<lparr>ofs := ofs fk + m\<rparr>)"
    using doread_nonzero [OF pos m', of s] by (simp only: ofk)
  then have "doread w len (f1\<lparr>ofs := k\<rparr>) s = Inr (m, take m (drop k str), f1\<lparr>ofs := k + m\<rparr>)"
    by (simp add: tk) (simp add: fk_def)
  moreover have "valid s = 0 \<longrightarrow> doread w len f0 s = Inl EINVAL"
    using assms(1) by (simp add: doread_def)
  ultimately show ?thesis
    by (simp add: Let_def str_def [symmetric] m_def [symmetric] o)
qed

theorem remainder_read_skips_validity_check_witness:
  "ofs opened = 0 \<and> valid published \<noteq> 0 \<and>
   doread 32 3 opened published = Inr (3, ''652'', partly_read) \<and> (0 :: nat) < 3 \<and>
   ofs partly_read = 3 \<and> valid stale = 0 \<and>
   doread 32 32 partly_read stale = Inr (5, '' 233'' @ [CHR 0x0A], partly_read\<lparr>ofs := 8\<rparr>) \<and>
   doread 32 32 opened stale = Inl EINVAL"
proof -
  have a: "ofs opened = 0" by (simp add: opened_def)
  have b: "valid published \<noteq> 0" by (simp add: published_store)
  have c: "doread 32 3 opened published = Inr (3, ''652'', partly_read)"
    by (simp add: doread_def published_store sample_text sprintf_def deliver_eq
        opened_def partly_read_def)
  have d: "(0 :: nat) < 3" by simp
  have e: "partly_read\<lparr>ofs := 3\<rparr> = partly_read" by (simp add: partly_read_def)
  show ?thesis
    using remainder_read_skips_validity_check [OF a b c d, of 32 32 stale] a b c
    by (simp add: Let_def published_store stale_store sample_text e)
qed

lemma doopen_zeroed: "doopen (Some (replicate MAXS NUL)) = Inr opened"
  by (simp add: doopen_def opened_def MAXS_def list_eq_iff_nth_eq nth_list_update)


end
